theory Spec2Isabelle
  imports Main "HOL-Library.Word"
begin

unbundle bit_operations_syntax

section \<open>Data model\<close>

text \<open>
  A Go \<open>byte\<close> is an 8-bit word and a \<open>[]byte\<close> value is a list of them.  The
  program reports failure in three ways: an error of the card library (\<open>scard.Error\<close>,
  a 32-bit code), an error made with \<open>fmt.Errorf\<close> in \<open>Token.Transceive\<close>, and a
  run-time panic of an index or slice expression that is out of range.  All three are
  branches of the result type \<open>error + 'a\<close>.
\<close>

type_synonym byte = "8 word"

datatype error =
    TransportError "32 word"
  | ProtocolError string
  | Panic

section \<open>The card transport: \<open>ScardTag\<close>\<close>

text \<open>
  \<open>scard.Card.Transmit\<close> belongs to an external library, so it is a parameter: a
  function from the bytes sent and the state of the card to the reply (or the library's
  error code) and the next state.  The record keeps, beside the state of the card, the
  list of byte strings handed to \<open>Transmit\<close> so far, oldest first.  The printing
  that \<open>transceiveRaw\<close> does under \<open>DEBUG\<close> changes no result and is left out.
\<close>

type_synonym 's transmit = "byte list \<Rightarrow> 's \<Rightarrow> (32 word + byte list) \<times> 's"

record 's reader =
  card :: 's
  wire :: "byte list list"

type_synonym 'w tag = "byte list \<Rightarrow> 'w \<Rightarrow> (error + byte list) \<times> 'w"

definition transceiveRaw :: "'s transmit \<Rightarrow> 's reader tag" where
  "transceiveRaw Transmit data r =
     (case Transmit data (card r) of
        (res, c') \<Rightarrow>
          (case res of Inl code \<Rightarrow> Inl (TransportError code) | Inr resp \<Rightarrow> Inr resp,
           \<lparr>card = c', wire = wire r @ [data]\<rparr>))"

definition probe :: "byte list" where
  "probe = [0x00, 0xa4, 0x04, 0x00]"

definition ScardTag_Transceive :: "'s transmit \<Rightarrow> 's reader tag" where
  "ScardTag_Transceive Transmit data r =
     (case transceiveRaw Transmit probe r of
        (Inl err, r') \<Rightarrow> (Inl err, r')
      | (Inr _, r') \<Rightarrow> transceiveRaw Transmit data r')"

section \<open>The token protocol: \<open>Token\<close>\<close>

fun xor_loop :: "byte \<Rightarrow> byte list \<Rightarrow> byte" where
  "xor_loop ret [] = ret"
| "xor_loop ret (v # data) = xor_loop (ret XOR v) data"

definition xor_bytes :: "byte list \<Rightarrow> byte" where
  "xor_bytes data = xor_loop 0 data"

text \<open>
  The contents of the Go slice expression \<open>s[lo:hi]\<close>, for \<open>lo \<le> hi \<le> len(s)\<close>;
  outside this range the callers below panic before they use it.
\<close>

definition slice :: "'a list \<Rightarrow> nat \<Rightarrow> nat \<Rightarrow> 'a list" where
  "slice s lo hi = take (hi - lo) (drop lo s)"

text \<open>
  Lines 63 to 65 of \<open>Token.Transceive\<close> build the outbound buffer.  The conversion
  \<open>uint8(len(data) + 1)\<close> keeps the low eight bits.
\<close>

definition frame :: "byte list \<Rightarrow> byte list" where
  "frame data = ([0x86, word_of_nat (length data + 1)] @ data) @ [xor_bytes data]"

text \<open>
  Lines 70 to 76 of \<open>Token.Transceive\<close> check and strip the reply.  The expression
  \<open>2+resp[1]-1\<close> has type \<open>uint8\<close> and wraps.  \<open>resp[0]\<close>, \<open>resp[1]\<close> and
  \<open>resp[2+resp[1]-1]\<close> panic when the index is not below the length, and
  \<open>resp[2:2+resp[1]-1]\<close> panics when its upper bound is below 2.
\<close>

definition checksum_index :: "byte list \<Rightarrow> nat" where
  "checksum_index resp = unat (2 + resp ! 1 - 1)"

definition unframe :: "byte list \<Rightarrow> error + byte list" where
  "unframe resp =
     (if length resp < 1 then Inl Panic
      else if resp ! 0 \<noteq> 0xaa then Inl (ProtocolError ''unknown response header byte'')
      else if length resp < 2 then Inl Panic
      else if length resp \<le> checksum_index resp then Inl Panic
      else if checksum_index resp < 2 then Inl Panic
      else if resp ! checksum_index resp \<noteq> xor_bytes (slice resp 2 (checksum_index resp))
        then Inl (ProtocolError ''response checksum incorrect'')
      else Inr (slice resp 2 (checksum_index resp)))"

definition Token_Transceive :: "'w tag \<Rightarrow> byte list \<Rightarrow> 'w \<Rightarrow> (error + byte list) \<times> 'w" where
  "Token_Transceive Tag_Transceive data w =
     (case Tag_Transceive (frame data) w of
        (Inl err, w') \<Rightarrow> (Inl err, w')
      | (Inr resp, w') \<Rightarrow> (unframe resp, w'))"

definition GetInfo :: "'w tag \<Rightarrow> 'w \<Rightarrow> (error + byte list) \<times> 'w" where
  "GetInfo Tag_Transceive w = Token_Transceive Tag_Transceive [0x10] w"

text \<open>
  \<open>checksum\<close>: \<open>binary.Read\<close> takes two bytes at a time from the reader and decodes
  them big-endian; with fewer than two bytes left it returns an error and the loop ends.
\<close>

definition BigEndian_Uint16 :: "byte \<Rightarrow> byte \<Rightarrow> 16 word" where
  "BigEndian_Uint16 b0 b1 = push_bit 8 (ucast b0) OR ucast b1"

fun checksum_loop :: "16 word \<Rightarrow> byte list \<Rightarrow> 16 word" where
  "checksum_loop checksum (b0 # b1 # rest) =
     checksum_loop (checksum + BigEndian_Uint16 b0 b1) rest"
| "checksum_loop checksum _ = checksum"

definition checksum :: "byte list \<Rightarrow> 16 word" where
  "checksum data = checksum_loop 0 data OR 0x5115"

definition BigEndian_AppendUint16 :: "byte list \<Rightarrow> 16 word \<Rightarrow> byte list" where
  "BigEndian_AppendUint16 b v = b @ [ucast (drop_bit 8 v), ucast v]"

text \<open>The loop \<open>for i := range buffer { buffer[i] ^= key }\<close>.\<close>

definition xor_key :: "byte \<Rightarrow> byte list \<Rightarrow> byte list" where
  "xor_key key buffer =
     fold (\<lambda>i buf. buf[i := buf ! i XOR key]) [0..<length buffer] buffer"

definition BurnSeed :: "'w tag \<Rightarrow> byte list \<Rightarrow> 'w \<Rightarrow> (error + byte list) \<times> 'w" where
  "BurnSeed Tag_Transceive seed w =
     (let buffer = [] @ seed;
          buffer = buffer @ [6, 30];
          buffer = BigEndian_AppendUint16 buffer (checksum seed)
      in case GetInfo Tag_Transceive w of
           (Inl err, w') \<Rightarrow> (Inl err, w')
         | (Inr data, w') \<Rightarrow>
             if length data \<le> 5 then (Inl Panic, w')
             else let key = data ! 5;
                      buffer = xor_key key buffer
                  in Token_Transceive Tag_Transceive ([0x18] @ buffer) w')"

section \<open>Slices in memory\<close>

text \<open>
  The definitions above pass byte strings by value.  In Go a \<open>[]byte\<close> is a header
  (array, offset, length, capacity) over a backing array that other slices may share, and
  \<open>append\<close> and \<open>buffer[i] ^= key\<close> write into that array.  To follow which arrays
  \<open>BurnSeed\<close> writes, the functions are given a second time over an explicit memory: a
  map from addresses to backing arrays, with \<open>lim\<close> the next unused address.
\<close>

type_synonym addr = nat

record memory =
  arrays :: "addr \<Rightarrow> byte list"
  lim :: addr

record slice_hdr =
  array :: addr
  offset :: nat
  len :: nat
  cap :: nat

text \<open>The nil slice \<open>[]byte(nil)\<close> has no backing array: length and capacity 0.\<close>

definition nil_slice :: slice_hdr where
  "nil_slice = \<lparr>array = 0, offset = 0, len = 0, cap = 0\<rparr>"

definition load :: "memory \<Rightarrow> slice_hdr \<Rightarrow> byte list" where
  "load m s = take (len s) (drop (offset s) (arrays m (array s)))"

text \<open>
  A new backing array of capacity \<open>c\<close> (at least the length of the contents), as made
  by a composite literal, by \<open>make\<close>, or by \<open>append\<close> when it has to grow.
\<close>

definition make_slice :: "byte list \<Rightarrow> nat \<Rightarrow> memory \<Rightarrow> slice_hdr \<times> memory" where
  "make_slice bs c m =
     (\<lparr>array = lim m, offset = 0, len = length bs, cap = max c (length bs)\<rparr>,
      \<lparr>arrays = (arrays m)(lim m := bs @ replicate (max c (length bs) - length bs) 0),
       lim = Suc (lim m)\<rparr>)"

text \<open>The assignment \<open>s[i] = v\<close>, for \<open>i < len(s)\<close>.\<close>

definition store :: "slice_hdr \<Rightarrow> nat \<Rightarrow> byte \<Rightarrow> memory \<Rightarrow> memory" where
  "store s i v m =
     m\<lparr>arrays := (arrays m)(array s := (arrays m (array s))[offset s + i := v])\<rparr>"

definition write_at :: "byte list \<Rightarrow> nat \<Rightarrow> byte list \<Rightarrow> byte list" where
  "write_at arr k xs = take k arr @ xs @ drop (k + length xs) arr"

text \<open>
  \<open>append(s, xs...)\<close>: when the capacity of \<open>s\<close> suffices the values are written into
  its backing array behind its last element; otherwise a new array receives the
  elements of \<open>s\<close> and the values.  How much capacity a new array gets is left to the Go
  runtime, so it is the parameter \<open>growslice\<close> (old capacity, length needed).
\<close>

definition append_slice ::
  "(nat \<Rightarrow> nat \<Rightarrow> nat) \<Rightarrow> slice_hdr \<Rightarrow> byte list \<Rightarrow> memory \<Rightarrow> slice_hdr \<times> memory" where
  "append_slice growslice s xs m =
     (if len s + length xs \<le> cap s
      then (s\<lparr>len := len s + length xs\<rparr>,
            m\<lparr>arrays := (arrays m)
                 (array s := write_at (arrays m (array s)) (offset s + len s) xs)\<rparr>)
      else make_slice (load m s @ xs) (growslice (cap s) (len s + length xs)) m)"

text \<open>
  \<open>Token.Transceive\<close> over memory, in the same three parts as above: the buffer of
  lines 63 to 65, the call of the tag, and the checks of lines 70 to 76.  The tag is
  external: it reads the bytes of the buffer it is handed and returns its reply in an
  array of its own, as \<open>Transmit\<close> of the card library does.  The result
  \<open>resp[2 : 2+resp[1]-1]\<close> shares the reply's array.
\<close>

definition frame_mem ::
  "(nat \<Rightarrow> nat \<Rightarrow> nat) \<Rightarrow> slice_hdr \<Rightarrow> memory \<Rightarrow> slice_hdr \<times> memory" where
  "frame_mem growslice data m =
     (case make_slice [0x86, word_of_nat (len data + 1)] 2 m of (buffer, m) \<Rightarrow>
      case append_slice growslice buffer (load m data) m of (buffer, m) \<Rightarrow>
        append_slice growslice buffer [xor_bytes (load m data)] m)"

definition unframe_mem :: "slice_hdr \<Rightarrow> memory \<Rightarrow> error + slice_hdr" where
  "unframe_mem resp m =
     (if len resp < 1 then Inl Panic
      else if load m resp ! 0 \<noteq> 0xaa then Inl (ProtocolError ''unknown response header byte'')
      else if len resp < 2 then Inl Panic
      else if len resp \<le> checksum_index (load m resp) then Inl Panic
      else if checksum_index (load m resp) < 2 then Inl Panic
      else if load m resp ! checksum_index (load m resp)
                \<noteq> xor_bytes (slice (load m resp) 2 (checksum_index (load m resp)))
        then Inl (ProtocolError ''response checksum incorrect'')
      else Inr \<lparr>array = array resp, offset = offset resp + 2,
                len = checksum_index (load m resp) - 2, cap = cap resp - 2\<rparr>)"

definition Token_Transceive_mem ::
  "(nat \<Rightarrow> nat \<Rightarrow> nat) \<Rightarrow> 'w tag \<Rightarrow> slice_hdr \<Rightarrow> memory \<Rightarrow> 'w
     \<Rightarrow> (error + slice_hdr) \<times> memory \<times> 'w" where
  "Token_Transceive_mem growslice Tag_Transceive data m w =
     (case frame_mem growslice data m of (buffer, m) \<Rightarrow>
      case Tag_Transceive (load m buffer) w of
        (Inl err, w') \<Rightarrow> (Inl err, m, w')
      | (Inr reply, w') \<Rightarrow>
          (case make_slice reply (length reply) m of (resp, m) \<Rightarrow>
             (unframe_mem resp m, m, w')))"

definition GetInfo_mem ::
  "(nat \<Rightarrow> nat \<Rightarrow> nat) \<Rightarrow> 'w tag \<Rightarrow> memory \<Rightarrow> 'w \<Rightarrow> (error + slice_hdr) \<times> memory \<times> 'w" where
  "GetInfo_mem growslice Tag_Transceive m w =
     (case make_slice [0x10] 1 m of (data, m) \<Rightarrow>
        Token_Transceive_mem growslice Tag_Transceive data m w)"

text \<open>The loop \<open>for i := range buffer { buffer[i] ^= key }\<close>, writing through the slice.\<close>

definition xor_key_mem :: "byte \<Rightarrow> slice_hdr \<Rightarrow> memory \<Rightarrow> memory" where
  "xor_key_mem key buffer m =
     fold (\<lambda>i m. store buffer i (load m buffer ! i XOR key) m) [0..<len buffer] m"

definition BurnSeed_mem ::
  "(nat \<Rightarrow> nat \<Rightarrow> nat) \<Rightarrow> 'w tag \<Rightarrow> slice_hdr \<Rightarrow> memory \<Rightarrow> 'w
     \<Rightarrow> (error + slice_hdr) \<times> memory \<times> 'w" where
  "BurnSeed_mem growslice Tag_Transceive seed m w =
     (case append_slice growslice nil_slice (load m seed) m of (buffer, m) \<Rightarrow>
      case append_slice growslice buffer [6, 30] m of (buffer, m) \<Rightarrow>
      case append_slice growslice buffer
             [ucast (drop_bit 8 (checksum (load m seed))), ucast (checksum (load m seed))] m
        of (buffer, m) \<Rightarrow>
      case GetInfo_mem growslice Tag_Transceive m w of
        (Inl err, m, w') \<Rightarrow> (Inl err, m, w')
      | (Inr data, m, w') \<Rightarrow>
          if len data \<le> 5 then (Inl Panic, m, w')
          else (case xor_key_mem (load m data ! 5) buffer m of m \<Rightarrow>
                case make_slice [0x18] 1 m of (literal, m) \<Rightarrow>
                case append_slice growslice literal (load m buffer) m of (payload, m) \<Rightarrow>
                  Token_Transceive_mem growslice Tag_Transceive payload m w'))"

text \<open>
  A slice header is valid in a memory when its capacity lies inside an allocated array
  (or is 0).  \<open>unchanged_below n m m'\<close> says that going from \<open>m\<close> to \<open>m'\<close> no
  address was given up and the arrays at the addresses below \<open>n\<close> kept their contents.
\<close>

definition valid :: "memory \<Rightarrow> slice_hdr \<Rightarrow> bool" where
  "valid m s =
     (len s \<le> cap s
      \<and> (cap s = 0 \<or> (array s < lim m \<and> offset s + cap s \<le> length (arrays m (array s)))))"

definition unchanged_below :: "addr \<Rightarrow> memory \<Rightarrow> memory \<Rightarrow> bool" where
  "unchanged_below n m m' = (lim m \<le> lim m' \<and> (\<forall>a<n. arrays m' a = arrays m a))"

section \<open>A card that replays a script\<close>

text \<open>
  A stand-in for the external card, used to run the model on concrete exchanges: its
  state is the list of results still to be given, and each \<open>Transmit\<close> gives the
  next one whatever was sent.  With nothing left it reports the library's code
  \<open>0x80100017\<close> (reader unavailable).
\<close>

definition replay :: "(32 word + byte list) list transmit" where
  "replay data script =
     (case script of [] \<Rightarrow> (Inl 0x80100017, []) | res # rest \<Rightarrow> (res, rest))"

definition fresh_reader :: "'s \<Rightarrow> 's reader" where
  "fresh_reader c = \<lparr>card = c, wire = []\<rparr>"

section \<open>Auxiliary facts\<close>

subsection \<open>The XOR fold and the key loop\<close>

lemma xor_loop_foldl: "xor_loop ret data = foldl (\<lambda>c v. c XOR v) ret data"
  by (induction data arbitrary: ret) simp_all

lemma xor_bytes_foldl: "xor_bytes data = foldl (\<lambda>c v. c XOR v) 0 data"
  by (simp add: xor_bytes_def xor_loop_foldl)

lemma fold_update_prefix:
  "n \<le> length xs \<Longrightarrow>
   fold (\<lambda>i buf. buf[i := f (buf ! i)]) [0..<n] xs = map f (take n xs) @ drop n xs"
proof (induction n)
  case 0
  then show ?case by simp
next
  case (Suc n)
  then have n: "n < length xs" by simp
  have "fold (\<lambda>i buf. buf[i := f (buf ! i)]) [0..<Suc n] xs
        = (map f (take n xs) @ drop n xs)[n := f ((map f (take n xs) @ drop n xs) ! n)]"
    using Suc by simp
  also have "\<dots> = map f (take n xs) @ (drop n xs)[0 := f (xs ! n)]"
    using n by (simp add: list_update_append nth_append)
  also have "\<dots> = map f (take n xs) @ f (xs ! n) # drop (Suc n) xs"
    using n by (simp add: Cons_nth_drop_Suc [symmetric])
  also have "\<dots> = map f (take (Suc n) xs) @ drop (Suc n) xs"
    using n by (simp add: take_Suc_conv_app_nth)
  finally show ?case .
qed

lemma xor_key_map: "xor_key key buffer = map (\<lambda>b. b XOR key) buffer"
  using fold_update_prefix [of "length buffer" buffer "\<lambda>b. b XOR key"]
  by (simp add: xor_key_def)

subsection \<open>Bytes and 16-bit words as numbers\<close>

lemma unat_byte_of_nat: "unat (word_of_nat n :: byte) = n mod 256"
  by (simp add: unat_of_nat take_bit_eq_mod)

lemma length_byte_mod:
  "unat (word_of_nat (length data + 1) :: byte) = (length data + 1) mod 256"
  by (rule unat_byte_of_nat)

lemma length_byte:
  "length data \<le> 254 \<Longrightarrow> unat (word_of_nat (length data + 1) :: byte) = length data + 1"
  unfolding length_byte_mod by simp

lemma checksum_index_nat: "checksum_index resp = (unat (resp ! 1) + 1) mod 256"
  unfolding checksum_index_def by (simp add: unat_word_ariths mod_simps)

lemma shifted_or_is_add:
  "push_bit 8 (ucast (b0 :: byte) :: 16 word) OR ucast (b1 :: byte)
   = push_bit 8 (ucast b0) + ucast b1"
proof (rule disjunctive_add [symmetric])
  fix n
  show "\<not> bit (push_bit 8 (ucast b0 :: 16 word)) n \<or> \<not> bit (ucast b1 :: 16 word) n"
    by (auto simp: bit_push_bit_iff bit_ucast_iff dest: bit_imp_le_length)
qed

lemma BigEndian_Uint16_nat:
  "BigEndian_Uint16 b0 b1 = word_of_nat (256 * unat b0 + unat b1)"
  unfolding BigEndian_Uint16_def shifted_or_is_add by (simp add: push_bit_eq_mult)

lemma word16_of_nat_mod: "(word_of_nat (n mod 2 ^ 16) :: 16 word) = word_of_nat n"
  by (simp add: word_of_nat_eq_iff take_bit_eq_mod)

lemma checksum_loop_sum:
  "checksum_loop acc data =
     acc + word_of_nat
       (\<Sum>i<length data div 2. 256 * unat (data ! (2 * i)) + unat (data ! (2 * i + 1)))"
proof (induction acc data rule: checksum_loop.induct)
  case (1 acc b0 b1 rest)
  have "(\<Sum>i<length (b0 # b1 # rest) div 2.
           256 * unat ((b0 # b1 # rest) ! (2 * i)) + unat ((b0 # b1 # rest) ! (2 * i + 1)))
        = (256 * unat b0 + unat b1)
          + (\<Sum>i<length rest div 2. 256 * unat (rest ! (2 * i)) + unat (rest ! (2 * i + 1)))"
    by (simp add: sum.lessThan_Suc_shift del: sum.lessThan_Suc)
  then show ?case
    using 1 by (simp only: checksum_loop.simps BigEndian_Uint16_nat of_nat_add add.assoc)
qed simp_all

subsection \<open>The reply check, case by case\<close>

lemma frame_Cons:
  "frame data = 0x86 # word_of_nat (length data + 1) # data @ [xor_bytes data]"
  by (simp add: frame_def)

lemma unframe_empty: "unframe [] = Inl Panic"
  by (simp add: unframe_def)

lemma unframe_bad_header:
  "resp \<noteq> [] \<Longrightarrow> resp ! 0 \<noteq> 0xaa \<Longrightarrow>
   unframe resp = Inl (ProtocolError ''unknown response header byte'')"
  by (simp add: unframe_def)

lemma unframe_zero_length:
  "2 \<le> length resp \<Longrightarrow> resp ! 0 = 0xaa \<Longrightarrow> resp ! 1 = 0 \<Longrightarrow> unframe resp = Inl Panic"
  by (simp add: unframe_def checksum_index_nat)

lemma unframe_255:
  "2 \<le> length resp \<Longrightarrow> resp ! 0 = 0xaa \<Longrightarrow> resp ! 1 = 255 \<Longrightarrow> unframe resp = Inl Panic"
  by (simp add: unframe_def checksum_index_nat)

lemma unframe_in_range:
  assumes "2 \<le> length resp" "resp ! 0 = 0xaa"
    and "1 \<le> unat (resp ! 1)" "unat (resp ! 1) \<le> 254" "unat (resp ! 1) + 1 < length resp"
  shows "unframe resp =
     (if resp ! (unat (resp ! 1) + 1) \<noteq> xor_bytes (take (unat (resp ! 1) - 1) (drop 2 resp))
      then Inl (ProtocolError ''response checksum incorrect'')
      else Inr (take (unat (resp ! 1) - 1) (drop 2 resp)))"
proof -
  have ci: "checksum_index resp = unat (resp ! 1) + 1"
    using assms by (simp add: checksum_index_nat)
  show ?thesis
    using assms unfolding unframe_def ci slice_def by auto
qed

subsection \<open>The two layers of \<open>Transceive\<close>\<close>

lemma ScardTag_Transceive_cases:
  "ScardTag_Transceive Transmit data r =
     (case Transmit probe (card r) of
        (Inl code, c') \<Rightarrow> (Inl (TransportError code), \<lparr>card = c', wire = wire r @ [probe]\<rparr>)
      | (Inr discarded, c') \<Rightarrow>
          (case Transmit data c' of
             (res, c'') \<Rightarrow>
               (case res of Inl code \<Rightarrow> Inl (TransportError code) | Inr resp \<Rightarrow> Inr resp,
                \<lparr>card = c'', wire = wire r @ [probe, data]\<rparr>)))"
  by (simp add: ScardTag_Transceive_def transceiveRaw_def split: prod.splits sum.splits)

lemma wire_ScardTag_Transceive:
  "wire (snd (ScardTag_Transceive Transmit data r)) =
     wire r @
       (case fst (Transmit probe (card r)) of
          Inl code \<Rightarrow> [probe]
        | Inr discarded \<Rightarrow> [probe, data])"
  by (simp add: ScardTag_Transceive_cases split: prod.splits sum.splits)

lemma snd_Token_Transceive:
  "snd (Token_Transceive tag data w) = snd (tag (frame data) w)"
  by (simp add: Token_Transceive_def split: prod.splits sum.splits)

lemma Token_Transceive_cases:
  "Token_Transceive tag data w =
     (case tag (frame data) w of
        (Inl err, w') \<Rightarrow> (Inl err, w')
      | (Inr resp, w') \<Rightarrow> (unframe resp, w'))"
  by (simp add: Token_Transceive_def)

lemma unframe_errors:
  "unframe resp = Inl e \<Longrightarrow>
   e = Panic \<or> e = ProtocolError ''unknown response header byte''
     \<or> e = ProtocolError ''response checksum incorrect''"
  by (auto simp: unframe_def split: if_splits)

lemma ScardTag_Transceive_errors:
  "fst (ScardTag_Transceive Transmit data r) = Inl e \<Longrightarrow> \<exists>code. e = TransportError code"
  by (auto simp: ScardTag_Transceive_cases split: prod.splits sum.splits)

lemma Token_on_ScardTag_errors:
  assumes "fst (Token_Transceive (ScardTag_Transceive Transmit) data r) = Inl e"
  shows "e \<noteq> ProtocolError ''info too short''"
proof (cases "ScardTag_Transceive Transmit (frame data) r")
  case (Pair res r')
  show ?thesis
  proof (cases res)
    case (Inl err)
    with Pair assms have "fst (ScardTag_Transceive Transmit (frame data) r) = Inl e"
      by (simp add: Token_Transceive_def)
    then show ?thesis
      by (auto dest: ScardTag_Transceive_errors)
  next
    case (Inr resp)
    with Pair assms have "unframe resp = Inl e"
      by (simp add: Token_Transceive_def)
    then show ?thesis
      by (auto dest: unframe_errors)
  qed
qed

subsection \<open>\<open>BurnSeed\<close> without the loop\<close>

lemma BurnSeed_cases:
  "BurnSeed tag seed w =
     (case GetInfo tag w of
        (Inl err, w') \<Rightarrow> (Inl err, w')
      | (Inr data, w') \<Rightarrow>
          if length data \<le> 5 then (Inl Panic, w')
          else Token_Transceive tag
                 (0x18 # map (\<lambda>b. b XOR data ! 5)
                    (seed @ [0x06, 0x1e, ucast (drop_bit 8 (checksum seed)), ucast (checksum seed)]))
                 w')"
  unfolding BurnSeed_def Let_def BigEndian_AppendUint16_def xor_key_map
  by (simp split: prod.splits sum.splits)

lemma BurnSeed_on_ScardTag_errors:
  "fst (BurnSeed (ScardTag_Transceive Transmit) seed r) \<noteq> Inl (ProtocolError ''info too short'')"
proof (cases "GetInfo (ScardTag_Transceive Transmit) r")
  case (Pair res r')
  show ?thesis
  proof (cases res)
    case (Inl err)
    with Pair have "fst (Token_Transceive (ScardTag_Transceive Transmit) [0x10] r) = Inl err"
      by (simp add: GetInfo_def)
    then have "err \<noteq> ProtocolError ''info too short''"
      by (rule Token_on_ScardTag_errors)
    with Pair Inl show ?thesis
      by (simp add: BurnSeed_cases)
  next
    case (Inr info)
    with Pair show ?thesis
      using Token_on_ScardTag_errors [of Transmit _ r']
      by (auto simp: BurnSeed_cases)
  qed
qed

lemma unat_ucast_byte: "unat (ucast (v :: 16 word) :: byte) = unat v mod 256"
  by (metis of_nat_unat unat_byte_of_nat)

lemma big_endian_bytes:
  "256 * unat (ucast (drop_bit 8 (v :: 16 word)) :: byte) + unat (ucast v :: byte) = unat v"
proof -
  have "unat v < 2 ^ 16"
    using unsigned_less [of v, where ?'a = nat] by simp
  then have small: "unat v div 256 < 256"
    by simp
  have "unat (drop_bit 8 v) = unat v div 256"
    by (simp add: drop_bit_eq_div unat_div)
  then have hi: "unat (ucast (drop_bit 8 v) :: byte) = unat v div 256"
    using small by (simp add: unat_ucast_byte)
  have lo: "unat (ucast v :: byte) = unat v mod 256"
    by (rule unat_ucast_byte)
  show ?thesis
    by (simp only: hi lo) simp
qed

lemma byte_of_nat_mod: "(word_of_nat (n mod 256) :: byte) = word_of_nat n"
  by (simp add: word_of_nat_eq_iff take_bit_eq_mod)

lemma xor_loop_zeros: "xor_loop 0 (replicate n 0) = 0"
  by (induction n) simp_all

lemma checksum_1122: "checksum [0x11, 0x22] = 0x5137"
  by (simp add: checksum_def BigEndian_Uint16_def)

subsection \<open>Framing followed by the reply check\<close>

lemma roundtrip_upto_253:
  assumes "length p \<le> 253"
  shows "unframe ((frame p)[0 := 0xaa]) = Inr p"
proof -
  let ?resp = "0xaa # word_of_nat (length p + 1) # p @ [xor_bytes p]"
  have n: "unat (?resp ! 1) = length p + 1"
    using assms by (simp add: unat_byte_of_nat del: of_nat_add of_nat_Suc)
  have "unframe ?resp =
     (if ?resp ! (unat (?resp ! 1) + 1) \<noteq> xor_bytes (take (unat (?resp ! 1) - 1) (drop 2 ?resp))
      then Inl (ProtocolError ''response checksum incorrect'')
      else Inr (take (unat (?resp ! 1) - 1) (drop 2 ?resp)))"
    by (rule unframe_in_range) (use assms n in \<open>simp_all del: of_nat_add of_nat_Suc\<close>)
  then show ?thesis
    unfolding n by (simp add: frame_Cons nth_append del: of_nat_add of_nat_Suc)
qed

lemma roundtrip_at_254:
  "length p = 254 \<Longrightarrow> unframe ((frame p)[0 := 0xaa]) = Inl Panic"
  by (rule unframe_255) (simp_all add: frame_Cons)

subsection \<open>Two exchanges with the replaying card\<close>

lemma GetInfo_replay:
  "GetInfo (ScardTag_Transceive replay)
     (fresh_reader [Inr [0x90, 0x00], Inr [0xaa, 0x07, 0, 0, 0, 0, 0, 0x2a, 0x2a],
                    Inr [0x90, 0x00], Inr [0xaa, 0x02, 0x01, 0x01]])
   = (Inr [0, 0, 0, 0, 0, 0x2a],
      \<lparr>card = [Inr [0x90, 0x00], Inr [0xaa, 0x02, 0x01, 0x01]],
       wire = [[0x00, 0xa4, 0x04, 0x00], [0x86, 0x02, 0x10, 0x10]]\<rparr>)"
  by (simp add: GetInfo_def Token_Transceive_def ScardTag_Transceive_def transceiveRaw_def
      replay_def fresh_reader_def probe_def frame_def xor_bytes_def unframe_def
      checksum_index_def slice_def)

lemma GetInfo_replay_nothing:
  "GetInfo (ScardTag_Transceive replay) (fresh_reader [])
   = (Inl (TransportError 0x80100017), \<lparr>card = [], wire = [[0x00, 0xa4, 0x04, 0x00]]\<rparr>)"
  by (simp add: GetInfo_def Token_Transceive_def ScardTag_Transceive_def transceiveRaw_def
      replay_def fresh_reader_def probe_def)

lemma GetInfo_replay_short:
  "GetInfo (ScardTag_Transceive replay)
     (fresh_reader [Inr [0x90, 0x00], Inr [0xaa, 0x06, 0, 0, 0, 0, 0x2a, 0x2a],
                    Inr [0x90, 0x00], Inr [0xaa, 0x02, 0x01, 0x01]])
   = (Inr [0, 0, 0, 0, 0x2a],
      \<lparr>card = [Inr [0x90, 0x00], Inr [0xaa, 0x02, 0x01, 0x01]],
       wire = [[0x00, 0xa4, 0x04, 0x00], [0x86, 0x02, 0x10, 0x10]]\<rparr>)"
  by (simp add: GetInfo_def Token_Transceive_def ScardTag_Transceive_def transceiveRaw_def
      replay_def fresh_reader_def probe_def frame_def xor_bytes_def unframe_def
      checksum_index_def slice_def)

lemma BurnSeed_replay:
  "BurnSeed (ScardTag_Transceive replay) [0x11, 0x22]
     (fresh_reader [Inr [0x90, 0x00], Inr [0xaa, 0x07, 0, 0, 0, 0, 0, 0x2a, 0x2a],
                    Inr [0x90, 0x00], Inr [0xaa, 0x02, 0x01, 0x01]])
   = (Inr [0x01],
      \<lparr>card = [],
       wire = [[0x00, 0xa4, 0x04, 0x00], [0x86, 0x02, 0x10, 0x10],
               [0x00, 0xa4, 0x04, 0x00],
               [0x86, 0x08, 0x18, 0x3b, 0x08, 0x2c, 0x34, 0x7b, 0x1d, 0x55]]\<rparr>)"
  by (simp add: BurnSeed_cases GetInfo_replay checksum_1122 Token_Transceive_def
      ScardTag_Transceive_def transceiveRaw_def replay_def probe_def frame_def xor_bytes_def
      unframe_def checksum_index_def slice_def)

subsection \<open>Memory: what each operation reads, writes and leaves alone\<close>

lemma unchanged_below_refl: "unchanged_below n m m"
  by (simp add: unchanged_below_def)

lemma unchanged_below_trans:
  "unchanged_below n m m' \<Longrightarrow> unchanged_below n m' m'' \<Longrightarrow> unchanged_below n m m''"
  by (auto simp: unchanged_below_def)

lemma unchanged_below_mono:
  "unchanged_below n m m' \<Longrightarrow> k \<le> n \<Longrightarrow> unchanged_below k m m'"
  by (auto simp: unchanged_below_def)

lemma unchanged_below_lim: "unchanged_below n m m' \<Longrightarrow> lim m \<le> lim m'"
  by (simp add: unchanged_below_def)

lemma length_load: "valid m s \<Longrightarrow> length (load m s) = len s"
  by (auto simp: valid_def load_def)

lemma valid_unchanged:
  assumes "valid m s" "unchanged_below n m m'" "cap s = 0 \<or> array s < n"
  shows "valid m' s" and "load m' s = load m s"
  using assms by (auto simp: valid_def load_def unchanged_below_def)

lemma make_slice_props:
  assumes "make_slice bs c m = (s, m')"
  shows "array s = lim m" and "valid m' s" and "load m' s = bs" and "len s = length bs"
    and "unchanged_below (lim m) m m'" and "lim m' = Suc (lim m)"
  using assms by (auto simp: make_slice_def valid_def load_def unchanged_below_def)

lemma length_write_at:
  "k + length xs \<le> length arr \<Longrightarrow> length (write_at arr k xs) = length arr"
  by (simp add: write_at_def)

lemma load_write_at:
  assumes "off + n + length xs \<le> length arr"
  shows "take (n + length xs) (drop off (write_at arr (off + n) xs))
         = take n (drop off arr) @ xs"
proof -
  have "drop off (take (off + n) arr) = take n (drop off arr)"
    by (simp add: drop_take)
  moreover have "length (take n (drop off arr)) = n"
    using assms by simp
  ultimately show ?thesis
    using assms by (simp add: write_at_def)
qed

lemma append_slice_in_place:
  assumes "valid m s" and "len s + length xs \<le> cap s"
    and "append_slice g s xs m = (s', m')"
  shows "s' = s\<lparr>len := len s + length xs\<rparr>"
    and "lim m' = lim m"
    and "\<forall>a. a \<noteq> array s \<longrightarrow> arrays m' a = arrays m a"
    and "cap s = 0 \<longrightarrow> arrays m' = arrays m"
    and "valid m' s'" and "load m' s' = load m s @ xs"
proof -
  from assms(2,3) have s': "s' = s\<lparr>len := len s + length xs\<rparr>"
    and m': "m' = m\<lparr>arrays := (arrays m)
                 (array s := write_at (arrays m (array s)) (offset s + len s) xs)\<rparr>"
    by (simp_all add: append_slice_def)
  show "s' = s\<lparr>len := len s + length xs\<rparr>" by (fact s')
  show "lim m' = lim m" by (simp add: m')
  show "\<forall>a. a \<noteq> array s \<longrightarrow> arrays m' a = arrays m a" by (simp add: m')
  show "cap s = 0 \<longrightarrow> arrays m' = arrays m"
    using assms(2) by (auto simp: m' write_at_def)
  show "valid m' s'"
  proof (cases "cap s = 0")
    case True
    with assms(2) show ?thesis by (simp add: valid_def s')
  next
    case False
    with assms(1) have "offset s + cap s \<le> length (arrays m (array s))" "array s < lim m"
      by (simp_all add: valid_def)
    with assms(2) show ?thesis
      by (simp add: valid_def s' m' length_write_at)
  qed
  show "load m' s' = load m s @ xs"
  proof (cases "cap s = 0")
    case True
    with assms(2) show ?thesis by (simp add: load_def s')
  next
    case False
    with assms(1) have "offset s + cap s \<le> length (arrays m (array s))"
      by (simp add: valid_def)
    with assms(2) have "offset s + len s + length xs \<le> length (arrays m (array s))"
      by simp
    then show ?thesis
      by (simp add: load_def s' m' load_write_at)
  qed
qed

lemma append_slice_props:
  assumes "valid m s" and "cap s = 0 \<or> n \<le> array s" and "n \<le> lim m"
    and "append_slice g s xs m = (s', m')"
  shows "valid m' s'" and "load m' s' = load m s @ xs"
    and "unchanged_below n m m'" and "cap s' = 0 \<or> n \<le> array s'"
proof -
  have "valid m' s' \<and> load m' s' = load m s @ xs
        \<and> unchanged_below n m m' \<and> (cap s' = 0 \<or> n \<le> array s')"
  proof (cases "len s + length xs \<le> cap s")
    case True
    note ip = append_slice_in_place [OF assms(1) True assms(4)]
    have "unchanged_below n m m'"
      using ip(2,3,4) assms(2) by (auto simp: unchanged_below_def)
    moreover have "cap s' = 0 \<or> n \<le> array s'"
      using assms(2) by (auto simp: ip(1))
    ultimately show ?thesis
      using ip(5,6) by simp
  next
    case False
    with assms(4)
    have mk: "make_slice (load m s @ xs) (g (cap s) (len s + length xs)) m = (s', m')"
      by (simp add: append_slice_def)
    note mp = make_slice_props [OF mk]
    have "unchanged_below n m m'"
      using mp(5) assms(3) by (rule unchanged_below_mono)
    with mp(1,2,3) assms(3) show ?thesis by simp
  qed
  then show "valid m' s'" and "load m' s' = load m s @ xs"
    and "unchanged_below n m m'" and "cap s' = 0 \<or> n \<le> array s'"
    by simp_all
qed

lemma store_props:
  assumes "valid m s" and "i < len s"
  shows "valid (store s i v m) s"
    and "load (store s i v m) s = (load m s)[i := v]"
    and "lim (store s i v m) = lim m"
    and "\<forall>a. a \<noteq> array s \<longrightarrow> arrays (store s i v m) a = arrays m a"
proof -
  from assms have "cap s \<noteq> 0"
    by (auto simp: valid_def)
  with assms(1) have inside: "offset s + cap s \<le> length (arrays m (array s))"
    and "array s < lim m" and "len s \<le> cap s"
    by (simp_all add: valid_def)
  then show "valid (store s i v m) s"
    by (simp add: valid_def store_def)
  show "load (store s i v m) s = (load m s)[i := v]"
    by (simp add: load_def store_def drop_update_swap take_update_swap)
  show "lim (store s i v m) = lim m"
    by (simp add: store_def)
  show "\<forall>a. a \<noteq> array s \<longrightarrow> arrays (store s i v m) a = arrays m a"
    by (simp add: store_def)
qed

lemma fold_store_props:
  assumes "valid m s" and "\<forall>i\<in>set is. i < len s"
  shows "valid (fold (\<lambda>i m. store s i (load m s ! i XOR key) m) is m) s
       \<and> load (fold (\<lambda>i m. store s i (load m s ! i XOR key) m) is m) s
           = fold (\<lambda>i buf. buf[i := buf ! i XOR key]) is (load m s)
       \<and> lim (fold (\<lambda>i m. store s i (load m s ! i XOR key) m) is m) = lim m
       \<and> (\<forall>a. a \<noteq> array s \<longrightarrow>
            arrays (fold (\<lambda>i m. store s i (load m s ! i XOR key) m) is m) a = arrays m a)"
  using assms
proof (induction "is" arbitrary: m)
  case Nil
  then show ?case by simp
next
  case (Cons i "is")
  then have i: "i < len s" by simp
  note st = store_props [OF Cons.prems(1) i, of "load m s ! i XOR key"]
  have "\<forall>i\<in>set is. i < len s"
    using Cons.prems(2) by simp
  from Cons.IH [OF st(1) this] show ?case
    by (simp add: st(2,3,4))
qed

lemma xor_key_mem_props:
  assumes "valid m s" and "cap s = 0 \<or> n \<le> array s"
  shows "valid (xor_key_mem key s m) s"
    and "load (xor_key_mem key s m) s = map (\<lambda>b. b XOR key) (load m s)"
    and "unchanged_below n m (xor_key_mem key s m)"
    and "lim (xor_key_mem key s m) = lim m"
proof -
  have all: "\<forall>i\<in>set [0..<len s]. i < len s"
    by simp
  note f = fold_store_props [OF assms(1) all, of key, folded xor_key_mem_def]
  show "valid (xor_key_mem key s m) s"
    using f by simp
  have "load (xor_key_mem key s m) s = xor_key key (load m s)"
    using f by (simp add: xor_key_def length_load [OF assms(1)])
  then show "load (xor_key_mem key s m) s = map (\<lambda>b. b XOR key) (load m s)"
    by (simp add: xor_key_map)
  show "lim (xor_key_mem key s m) = lim m"
    using f by simp
  show "unchanged_below n m (xor_key_mem key s m)"
  proof (cases "cap s = 0")
    case True
    with assms(1) have "len s = 0" by (simp add: valid_def)
    then show ?thesis
      by (simp add: xor_key_mem_def unchanged_below_def)
  next
    case False
    with assms(2) have "n \<le> array s" by simp
    with f show ?thesis
      by (auto simp: unchanged_below_def)
  qed
qed

lemma frame_mem_props:
  assumes "valid m data" and "frame_mem g data m = (buffer, m')"
  shows "valid m' buffer" and "load m' buffer = frame (load m data)"
    and "unchanged_below (lim m) m m'"
proof -
  obtain b1 m1 where mk: "make_slice [0x86, word_of_nat (len data + 1)] 2 m = (b1, m1)"
    by (cases "make_slice [0x86, word_of_nat (len data + 1)] 2 m")
  obtain b2 m2 where a1: "append_slice g b1 (load m1 data) m1 = (b2, m2)"
    by (cases "append_slice g b1 (load m1 data) m1")
  from assms(2) have a2: "append_slice g b2 [xor_bytes (load m2 data)] m2 = (buffer, m')"
    unfolding frame_mem_def mk prod.case a1 .
  note p1 = make_slice_props [OF mk]
  from assms(1) have old: "cap data = 0 \<or> array data < lim m"
    by (auto simp: valid_def)
  note d1 = valid_unchanged [OF assms(1) p1(5) old]
  have own1: "cap b1 = 0 \<or> lim m \<le> array b1"
    by (simp add: p1(1))
  have le1: "lim m \<le> lim m1"
    by (simp add: p1(6))
  note p2 = append_slice_props [OF p1(2) own1 le1 a1]
  note d2 = valid_unchanged [OF d1(1) p2(3) old]
  have le2: "lim m \<le> lim m2"
    using le1 unchanged_below_lim [OF p2(3)] by simp
  note p3 = append_slice_props [OF p2(1) p2(4) le2 a2]
  show "valid m' buffer" by (fact p3(1))
  show "load m' buffer = frame (load m data)"
    by (simp add: p3(2) p2(2) p1(3) d1(2) d2(2) frame_def length_load [OF assms(1)]
        del: of_nat_add of_nat_Suc)
  show "unchanged_below (lim m) m m'"
    using p1(5) p2(3) p3(3) by (blast intro: unchanged_below_trans)
qed

lemma unframe_mem_props:
  assumes "valid m resp"
  shows "map_sum id (load m) (unframe_mem resp m) = unframe (load m resp)"
    and "\<forall>s. unframe_mem resp m = Inr s \<longrightarrow> valid m s \<and> array s = array resp"
proof -
  note n = length_load [OF assms]
  let ?e = "checksum_index (load m resp)"
  have tail: "load m \<lparr>array = array resp, offset = offset resp + 2, len = ?e - 2,
                       cap = cap resp - 2\<rparr> = slice (load m resp) 2 ?e"
    if "?e < len resp"
  proof -
    have "min (len resp - 2) (?e - 2) = ?e - 2"
      using that by simp
    then show ?thesis
      by (simp add: load_def slice_def drop_take add.commute)
  qed
  show "map_sum id (load m) (unframe_mem resp m) = unframe (load m resp)"
    using tail by (simp add: unframe_mem_def unframe_def n)
  show "\<forall>s. unframe_mem resp m = Inr s \<longrightarrow> valid m s \<and> array s = array resp"
    using assms by (auto simp: unframe_mem_def valid_def split: if_splits)
qed

lemma Token_Transceive_mem_props:
  assumes "valid m data" and "Token_Transceive_mem g tag data m w = (res, m', w')"
  shows "unchanged_below (lim m) m m'"
    and "(map_sum id (load m') res, w') = Token_Transceive tag (load m data) w"
    and "\<forall>s. res = Inr s \<longrightarrow> valid m' s"
proof -
  obtain buffer m1 where fr: "frame_mem g data m = (buffer, m1)"
    by (cases "frame_mem g data m")
  note f = frame_mem_props [OF assms(1) fr]
  obtain r w1 where tg: "tag (frame (load m data)) w = (r, w1)"
    by (cases "tag (frame (load m data)) w")
  have "unchanged_below (lim m) m m'
        \<and> (map_sum id (load m') res, w') = Token_Transceive tag (load m data) w
        \<and> (\<forall>s. res = Inr s \<longrightarrow> valid m' s)"
  proof (cases r)
    case (Inl err)
    from assms(2) have "res = Inl err" "m' = m1" "w' = w1"
      unfolding Token_Transceive_mem_def fr prod.case f(2) tg Inl sum.case by auto
    then show ?thesis
      using f(3) by (simp add: Token_Transceive_def tg Inl)
  next
    case (Inr reply)
    obtain resp m2 where mk: "make_slice reply (length reply) m1 = (resp, m2)"
      by (cases "make_slice reply (length reply) m1")
    from assms(2) have out: "res = unframe_mem resp m2" "m' = m2" "w' = w1"
      unfolding Token_Transceive_mem_def fr prod.case f(2) tg Inr sum.case mk by auto
    note p = make_slice_props [OF mk]
    note u = unframe_mem_props [OF p(2)]
    have "unchanged_below (lim m) m1 m2"
      using p(5) unchanged_below_lim [OF f(3)] by (rule unchanged_below_mono)
    with f(3) have "unchanged_below (lim m) m m2"
      by (rule unchanged_below_trans)
    then show ?thesis
      using u by (simp add: out Token_Transceive_def tg Inr p(3))
  qed
  then show "unchanged_below (lim m) m m'"
    and "(map_sum id (load m') res, w') = Token_Transceive tag (load m data) w"
    and "\<forall>s. res = Inr s \<longrightarrow> valid m' s"
    by simp_all
qed

lemma GetInfo_mem_props:
  assumes "GetInfo_mem g tag m w = (res, m', w')"
  shows "unchanged_below (lim m) m m'"
    and "(map_sum id (load m') res, w') = GetInfo tag w"
    and "\<forall>s. res = Inr s \<longrightarrow> valid m' s"
proof -
  obtain data m1 where mk: "make_slice [0x10] 1 m = (data, m1)"
    by (cases "make_slice [0x10] 1 m")
  from assms have tt: "Token_Transceive_mem g tag data m1 w = (res, m', w')"
    unfolding GetInfo_mem_def mk prod.case .
  note p = make_slice_props [OF mk]
  note t = Token_Transceive_mem_props [OF p(2) tt]
  have "unchanged_below (lim m) m1 m'"
    using t(1) by (rule unchanged_below_mono) (simp add: p(6))
  with p(5) show "unchanged_below (lim m) m m'"
    by (rule unchanged_below_trans)
  show "(map_sum id (load m') res, w') = GetInfo tag w"
    using t(2) by (simp add: GetInfo_def p(3))
  show "\<forall>s. res = Inr s \<longrightarrow> valid m' s"
    by (fact t(3))
qed

lemma valid_nil_slice: "valid m nil_slice"
  by (simp add: valid_def nil_slice_def)

lemma load_nil_slice: "load m nil_slice = []"
  by (simp add: load_def nil_slice_def)

lemma valid_allocated: "valid m s \<Longrightarrow> cap s = 0 \<or> array s < lim m"
  by (auto simp: valid_def)

lemma BurnSeed_mem_props:
  assumes "valid m seed" and "BurnSeed_mem g tag seed m w = (res, m', w')"
  shows "unchanged_below (lim m) m m'"
    and "(map_sum id (load m') res, w') = BurnSeed tag (load m seed) w"
proof -
  let ?n = "lim m"
  note old = valid_allocated [OF assms(1)]
  obtain b1 m1 where e1: "append_slice g nil_slice (load m seed) m = (b1, m1)"
    by (cases "append_slice g nil_slice (load m seed) m")
  have own0: "cap nil_slice = 0 \<or> ?n \<le> array nil_slice"
    by (simp add: nil_slice_def)
  note p1 = append_slice_props [OF valid_nil_slice own0 order_refl e1]
  note s1 = valid_unchanged [OF assms(1) p1(3) old]
  have le1: "?n \<le> lim m1"
    by (rule unchanged_below_lim [OF p1(3)])
  obtain b2 m2 where e2: "append_slice g b1 [6, 30] m1 = (b2, m2)"
    by (cases "append_slice g b1 [6, 30] m1")
  note p2 = append_slice_props [OF p1(1) p1(4) le1 e2]
  note s2 = valid_unchanged [OF s1(1) p2(3) old]
  have le2: "?n \<le> lim m2"
    using le1 unchanged_below_lim [OF p2(3)] by simp
  obtain b3 m3 where e3: "append_slice g b2
      [ucast (drop_bit 8 (checksum (load m2 seed))), ucast (checksum (load m2 seed))] m2
      = (b3, m3)"
    by (cases "append_slice g b2
      [ucast (drop_bit 8 (checksum (load m2 seed))), ucast (checksum (load m2 seed))] m2")
  note p3 = append_slice_props [OF p2(1) p2(4) le2 e3]
  have le3: "?n \<le> lim m3"
    using le2 unchanged_below_lim [OF p3(3)] by simp
  have u3: "unchanged_below ?n m m3"
    using p1(3) p2(3) p3(3) by (blast intro: unchanged_below_trans)
  have buf3: "load m3 b3 = load m seed @ [6, 30]
      @ [ucast (drop_bit 8 (checksum (load m seed))), ucast (checksum (load m seed))]"
    by (simp add: p3(2) p2(2) p1(2) load_nil_slice s1(2) s2(2))
  obtain gi m4 w1 where e4: "GetInfo_mem g tag m3 w = (gi, m4, w1)"
    by (cases "GetInfo_mem g tag m3 w")
  note p4 = GetInfo_mem_props [OF e4]
  have u4: "unchanged_below ?n m m4"
    using u3 unchanged_below_mono [OF p4(1) le3] by (rule unchanged_below_trans)
  note b4 = valid_unchanged [OF p3(1) p4(1) valid_allocated [OF p3(1)]]
  from assms(2) have rest:
    "(case gi of
        Inl err \<Rightarrow> (Inl err, m4, w1)
      | Inr data \<Rightarrow>
          if len data \<le> 5 then (Inl Panic, m4, w1)
          else (case xor_key_mem (load m4 data ! 5) b3 m4 of m \<Rightarrow>
                case make_slice [0x18] 1 m of (literal, m) \<Rightarrow>
                case append_slice g literal (load m b3) m of (payload, m) \<Rightarrow>
                  Token_Transceive_mem g tag payload m w1)) = (res, m', w')"
    unfolding BurnSeed_mem_def e1 prod.case e2 e3 e4 by (simp split: sum.splits)
  have "unchanged_below ?n m m' \<and> (map_sum id (load m') res, w') = BurnSeed tag (load m seed) w"
  proof (cases gi)
    case (Inl err)
    with rest have "res = Inl err" "m' = m4" "w' = w1"
      by auto
    moreover from p4(2) Inl have "GetInfo tag w = (Inl err, w1)"
      by simp
    ultimately show ?thesis
      using u4 by (simp add: BurnSeed_cases)
  next
    case (Inr data)
    with p4(3) have vd: "valid m4 data"
      by simp
    from p4(2) Inr have gi: "GetInfo tag w = (Inr (load m4 data), w1)"
      by simp
    note nd = length_load [OF vd]
    show ?thesis
    proof (cases "len data \<le> 5")
      case True
      with rest Inr have "res = Inl Panic" "m' = m4" "w' = w1"
        by auto
      then show ?thesis
        using u4 True by (simp add: BurnSeed_cases gi nd)
    next
      case False
      let ?key = "load m4 data ! 5"
      let ?m5 = "xor_key_mem ?key b3 m4"
      note p5 = xor_key_mem_props [OF b4(1) p3(4), of ?key]
      obtain lit m6 where e6: "make_slice [0x18] 1 ?m5 = (lit, m6)"
        by (cases "make_slice [0x18] 1 ?m5")
      note p6 = make_slice_props [OF e6]
      note b6 = valid_unchanged [OF p5(1) p6(5) valid_allocated [OF p5(1)]]
      obtain payload m7 where e7: "append_slice g lit (load m6 b3) m6 = (payload, m7)"
        by (cases "append_slice g lit (load m6 b3) m6")
      have own6: "cap lit = 0 \<or> lim ?m5 \<le> array lit"
        by (simp add: p6(1))
      have le6: "lim ?m5 \<le> lim m6"
        by (simp add: p6(6))
      note p7 = append_slice_props [OF p6(2) own6 le6 e7]
      have e8: "Token_Transceive_mem g tag payload m7 w1 = (res, m', w')"
        using rest unfolding Inr sum.case if_not_P [OF False] e6 prod.case e7 .
      note p8 = Token_Transceive_mem_props [OF p7(1) e8]
      have le5: "?n \<le> lim ?m5"
        using unchanged_below_lim [OF u4] by (simp add: p5(4))
      have le7: "?n \<le> lim m7"
        using le5 le6 unchanged_below_lim [OF p7(3)] by simp
      have "unchanged_below ?n m ?m5"
        using u4 p5(3) by (rule unchanged_below_trans)
      moreover have "unchanged_below ?n ?m5 m6"
        using p6(5) le5 by (rule unchanged_below_mono)
      moreover have "unchanged_below ?n m6 m7"
        using p7(3) le5 by (rule unchanged_below_mono)
      moreover have "unchanged_below ?n m7 m'"
        using p8(1) le7 by (rule unchanged_below_mono)
      ultimately have frame: "unchanged_below ?n m m'"
        by (blast intro: unchanged_below_trans)
      have "load m7 payload = 0x18 # map (\<lambda>b. b XOR ?key)
          (load m seed @ [6, 30, ucast (drop_bit 8 (checksum (load m seed))),
                          ucast (checksum (load m seed))])"
        by (simp add: p7(2) p6(3) b6(2) p5(2) b4(2) buf3)
      with p8(2) frame False show ?thesis
        by (simp add: BurnSeed_cases gi nd)
    qed
  qed
  then show "unchanged_below (lim m) m m'"
    and "(map_sum id (load m') res, w') = BurnSeed tag (load m seed) w"
    by simp_all
qed

section \<open>The claims\<close>

text \<open>
  C5.  For a payload of at most 254 bytes, \<open>Token.Transceive\<close> hands its tag exactly
  the bytes \<open>0x86\<close>, the length byte, the payload and the XOR of the payload bytes
  folded from the left starting at 0; the length byte reads as the payload length plus
  one; and on the card transport the real transmission, which follows the probe when
  the probe succeeds, carries exactly these bytes.
\<close>

theorem outbound_frame:
  assumes "length payload \<le> 254"
  shows "Token_Transceive tag payload w =
           (case tag (0x86 # word_of_nat (length payload + 1) # payload
                        @ [foldl (\<lambda>c v. c XOR v) 0 payload]) w of
              (Inl err, w') \<Rightarrow> (Inl err, w')
            | (Inr resp, w') \<Rightarrow> (unframe resp, w'))
         \<and> unat (word_of_nat (length payload + 1) :: byte) = length payload + 1
         \<and> wire (snd (Token_Transceive (ScardTag_Transceive Transmit) payload r)) =
             wire r @
               (case fst (Transmit [0x00, 0xa4, 0x04, 0x00] (card r)) of
                  Inl code \<Rightarrow> [[0x00, 0xa4, 0x04, 0x00]]
                | Inr discarded \<Rightarrow>
                    [[0x00, 0xa4, 0x04, 0x00],
                     0x86 # word_of_nat (length payload + 1) # payload
                       @ [foldl (\<lambda>c v. c XOR v) 0 payload]])"
proof (intro conjI)
  show "Token_Transceive tag payload w =
           (case tag (0x86 # word_of_nat (length payload + 1) # payload
                        @ [foldl (\<lambda>c v. c XOR v) 0 payload]) w of
              (Inl err, w') \<Rightarrow> (Inl err, w')
            | (Inr resp, w') \<Rightarrow> (unframe resp, w'))"
    unfolding Token_Transceive_def frame_Cons xor_bytes_foldl ..
  show "unat (word_of_nat (length payload + 1) :: byte) = length payload + 1"
    using assms by (rule length_byte)
  show "wire (snd (Token_Transceive (ScardTag_Transceive Transmit) payload r)) =
             wire r @
               (case fst (Transmit [0x00, 0xa4, 0x04, 0x00] (card r)) of
                  Inl code \<Rightarrow> [[0x00, 0xa4, 0x04, 0x00]]
                | Inr discarded \<Rightarrow>
                    [[0x00, 0xa4, 0x04, 0x00],
                     0x86 # word_of_nat (length payload + 1) # payload
                       @ [foldl (\<lambda>c v. c XOR v) 0 payload]])"
    unfolding snd_Token_Transceive wire_ScardTag_Transceive probe_def frame_Cons xor_bytes_foldl ..
qed

theorem outbound_frame_witness:
  "length [0x10 :: byte] \<le> 254
   \<and> wire (snd (Token_Transceive (ScardTag_Transceive replay) [0x10]
        (fresh_reader [Inr [0x90, 0x00], Inr [0xaa, 0x02, 0x01, 0x01]])))
     = [[0x00, 0xa4, 0x04, 0x00], [0x86, 0x02, 0x10, 0x10]]"
proof -
  have len: "length [0x10 :: byte] \<le> 254" by simp
  show ?thesis
    using outbound_frame [OF len, THEN conjunct2, THEN conjunct2, of replay
        "fresh_reader [Inr [0x90, 0x00], Inr [0xaa, 0x02, 0x01, 0x01]]"]
    by (simp add: replay_def fresh_reader_def)
qed

text \<open>
  C7.  \<open>checksum\<close> is the sum, modulo \<open>2^16\<close>, of the big-endian 16-bit words
  \<open>256 * data[2i] + data[2i+1]\<close> for \<open>i < len(data) div 2\<close> (so a trailing odd byte
  takes no part), OR-ed with \<open>0x5115\<close>; hence every bit of \<open>0x5115\<close> is set in the
  result.
\<close>

theorem checksum_sum_or_mask:
  "checksum data =
     word_of_nat
       ((\<Sum>i<length data div 2. 256 * unat (data ! (2 * i)) + unat (data ! (2 * i + 1)))
          mod 2 ^ 16) OR 0x5115
   \<and> checksum data AND 0x5115 = 0x5115"
proof
  show "checksum data =
     word_of_nat
       ((\<Sum>i<length data div 2. 256 * unat (data ! (2 * i)) + unat (data ! (2 * i + 1)))
          mod 2 ^ 16) OR 0x5115"
    unfolding checksum_def word16_of_nat_mod by (simp add: checksum_loop_sum)
  show "checksum data AND 0x5115 = 0x5115"
    unfolding checksum_def by simp
qed

text \<open>
  C8.  \<open>ScardTag.Transceive\<close> first transmits the probe \<open>00 A4 04 00\<close>.  When that
  transmission fails, the call ends with the transport's error and the data are never
  handed to the card; otherwise the probe's reply is discarded and the data are
  transmitted next.
\<close>

theorem keep_alive_first:
  "ScardTag_Transceive Transmit data r =
     (case Transmit [0x00, 0xa4, 0x04, 0x00] (card r) of
        (Inl code, c') \<Rightarrow>
          (Inl (TransportError code), \<lparr>card = c', wire = wire r @ [[0x00, 0xa4, 0x04, 0x00]]\<rparr>)
      | (Inr discarded, c') \<Rightarrow>
          (case Transmit data c' of
             (res, c'') \<Rightarrow>
               (case res of Inl code \<Rightarrow> Inl (TransportError code) | Inr resp \<Rightarrow> Inr resp,
                \<lparr>card = c'', wire = wire r @ [[0x00, 0xa4, 0x04, 0x00], data]\<rparr>)))"
  using ScardTag_Transceive_cases [of Transmit data r] unfolding probe_def .

text \<open>
  C6, as stated, fails: not every call sends the burn transmission.  With the five-byte
  info \<open>00 00 00 00 2A\<close> the call panics at \<open>data[5]\<close> right after the \<open>GetInfo\<close>
  round-trip; the wire holds the probe and the \<open>GetInfo\<close> frame only, and no frame
  with \<open>0x18\<close> is sent.
\<close>

theorem burn_seed_wire_short_info_counterexample:
  "GetInfo (ScardTag_Transceive replay)
     (fresh_reader [Inr [0x90, 0x00], Inr [0xaa, 0x06, 0, 0, 0, 0, 0x2a, 0x2a],
                    Inr [0x90, 0x00], Inr [0xaa, 0x02, 0x01, 0x01]])
   = (Inr [0, 0, 0, 0, 0x2a],
      \<lparr>card = [Inr [0x90, 0x00], Inr [0xaa, 0x02, 0x01, 0x01]],
       wire = [[0x00, 0xa4, 0x04, 0x00], [0x86, 0x02, 0x10, 0x10]]\<rparr>)
   \<and> BurnSeed (ScardTag_Transceive replay) [0x11, 0x22]
     (fresh_reader [Inr [0x90, 0x00], Inr [0xaa, 0x06, 0, 0, 0, 0, 0x2a, 0x2a],
                    Inr [0x90, 0x00], Inr [0xaa, 0x02, 0x01, 0x01]])
   = (Inl Panic,
      \<lparr>card = [Inr [0x90, 0x00], Inr [0xaa, 0x02, 0x01, 0x01]],
       wire = [[0x00, 0xa4, 0x04, 0x00], [0x86, 0x02, 0x10, 0x10]]\<rparr>)"
  by (simp add: BurnSeed_cases GetInfo_replay_short)

text \<open>
  C6, amended.  Every \<open>BurnSeed\<close> begins with a \<open>GetInfo\<close> round-trip of its own, a
  \<open>Transceive\<close> of \<open>[0x10]\<close>; there is no key kept from an earlier call.  When that
  round-trip fails, its error is the result.  When it returns an info of at least six
  bytes, \<open>BurnSeed\<close> continues from the state the round-trip left with one
  \<open>Transceive\<close> whose payload is \<open>0x18\<close> followed by
  \<open>seed || 06 || 1E || checksum(seed)\<close>, the checksum high byte first, every byte of
  that buffer XOR-ed with the key \<open>data[5]\<close> taken from that info; its result is the
  result of this \<open>Transceive\<close>: the tag's error, or the unframed reply.  When the info
  has fewer than six bytes the call panics in the state the round-trip left, so nothing
  is sent after it.
\<close>

theorem burn_seed_wire:
  "GetInfo tag w = Token_Transceive tag [0x10] w
   \<and> (\<forall>err w'. GetInfo tag w = (Inl err, w') \<longrightarrow> BurnSeed tag seed w = (Inl err, w'))
   \<and> (\<forall>info w'. GetInfo tag w = (Inr info, w') \<and> 5 < length info \<longrightarrow>
         BurnSeed tag seed w =
           Token_Transceive tag
             (0x18 # map (\<lambda>b. b XOR info ! 5)
                (seed @ [0x06, 0x1e]
                   @ [ucast (drop_bit 8 (checksum seed)), ucast (checksum seed)])) w'
         \<and> Token_Transceive tag
             (0x18 # map (\<lambda>b. b XOR info ! 5)
                (seed @ [0x06, 0x1e]
                   @ [ucast (drop_bit 8 (checksum seed)), ucast (checksum seed)])) w' =
           (case tag (frame (0x18 # map (\<lambda>b. b XOR info ! 5)
                        (seed @ [0x06, 0x1e]
                           @ [ucast (drop_bit 8 (checksum seed)), ucast (checksum seed)]))) w' of
              (Inl err, w'') \<Rightarrow> (Inl err, w'')
            | (Inr resp, w'') \<Rightarrow> (unframe resp, w'')))
   \<and> (\<forall>info w'. GetInfo tag w = (Inr info, w') \<and> length info \<le> 5 \<longrightarrow>
         BurnSeed tag seed w = (Inl Panic, w'))
   \<and> 256 * unat (ucast (drop_bit 8 (checksum seed)) :: byte)
         + unat (ucast (checksum seed) :: byte) = unat (checksum seed)"
proof (intro conjI allI impI)
  show "GetInfo tag w = Token_Transceive tag [0x10] w"
    by (simp add: GetInfo_def)
next
  fix err w'
  assume "GetInfo tag w = (Inl err, w')"
  then show "BurnSeed tag seed w = (Inl err, w')"
    by (simp add: BurnSeed_cases)
next
  fix info w'
  assume "GetInfo tag w = (Inr info, w') \<and> 5 < length info"
  then show "BurnSeed tag seed w =
           Token_Transceive tag
             (0x18 # map (\<lambda>b. b XOR info ! 5)
                (seed @ [0x06, 0x1e]
                   @ [ucast (drop_bit 8 (checksum seed)), ucast (checksum seed)])) w'"
    by (simp add: BurnSeed_cases)
next
  fix info w'
  show "Token_Transceive tag
             (0x18 # map (\<lambda>b. b XOR info ! 5)
                (seed @ [0x06, 0x1e]
                   @ [ucast (drop_bit 8 (checksum seed)), ucast (checksum seed)])) w' =
           (case tag (frame (0x18 # map (\<lambda>b. b XOR info ! 5)
                        (seed @ [0x06, 0x1e]
                           @ [ucast (drop_bit 8 (checksum seed)), ucast (checksum seed)]))) w' of
              (Inl err, w'') \<Rightarrow> (Inl err, w'')
            | (Inr resp, w'') \<Rightarrow> (unframe resp, w''))"
    by (rule Token_Transceive_cases)
next
  fix info w'
  assume "GetInfo tag w = (Inr info, w') \<and> length info \<le> 5"
  then show "BurnSeed tag seed w = (Inl Panic, w')"
    by (simp add: BurnSeed_cases)
next
  show "256 * unat (ucast (drop_bit 8 (checksum seed)) :: byte)
         + unat (ucast (checksum seed) :: byte) = unat (checksum seed)"
    by (rule big_endian_bytes)
qed

theorem burn_seed_wire_witness:
  "(GetInfo (ScardTag_Transceive replay) (fresh_reader [])
      = (Inl (TransportError 0x80100017), \<lparr>card = [], wire = [[0x00, 0xa4, 0x04, 0x00]]\<rparr>)
    \<and> BurnSeed (ScardTag_Transceive replay) [0x11, 0x22] (fresh_reader [])
      = (Inl (TransportError 0x80100017), \<lparr>card = [], wire = [[0x00, 0xa4, 0x04, 0x00]]\<rparr>))
   \<and> (GetInfo (ScardTag_Transceive replay)
       (fresh_reader [Inr [0x90, 0x00], Inr [0xaa, 0x07, 0, 0, 0, 0, 0, 0x2a, 0x2a],
                      Inr [0x90, 0x00], Inr [0xaa, 0x02, 0x01, 0x01]])
      = (Inr [0, 0, 0, 0, 0, 0x2a],
         \<lparr>card = [Inr [0x90, 0x00], Inr [0xaa, 0x02, 0x01, 0x01]],
          wire = [[0x00, 0xa4, 0x04, 0x00], [0x86, 0x02, 0x10, 0x10]]\<rparr>)
    \<and> 5 < length [0, 0, 0, 0, 0, 0x2a :: byte]
    \<and> BurnSeed (ScardTag_Transceive replay) [0x11, 0x22]
       (fresh_reader [Inr [0x90, 0x00], Inr [0xaa, 0x07, 0, 0, 0, 0, 0, 0x2a, 0x2a],
                      Inr [0x90, 0x00], Inr [0xaa, 0x02, 0x01, 0x01]])
      = (Inr [0x01],
         \<lparr>card = [],
          wire = [[0x00, 0xa4, 0x04, 0x00], [0x86, 0x02, 0x10, 0x10],
                  [0x00, 0xa4, 0x04, 0x00],
                  [0x86, 0x08, 0x18, 0x3b, 0x08, 0x2c, 0x34, 0x7b, 0x1d, 0x55]]\<rparr>))
   \<and> (GetInfo (ScardTag_Transceive replay)
       (fresh_reader [Inr [0x90, 0x00], Inr [0xaa, 0x06, 0, 0, 0, 0, 0x2a, 0x2a],
                      Inr [0x90, 0x00], Inr [0xaa, 0x02, 0x01, 0x01]])
      = (Inr [0, 0, 0, 0, 0x2a],
         \<lparr>card = [Inr [0x90, 0x00], Inr [0xaa, 0x02, 0x01, 0x01]],
          wire = [[0x00, 0xa4, 0x04, 0x00], [0x86, 0x02, 0x10, 0x10]]\<rparr>)
    \<and> length [0, 0, 0, 0, 0x2a :: byte] \<le> 5
    \<and> BurnSeed (ScardTag_Transceive replay) [0x11, 0x22]
       (fresh_reader [Inr [0x90, 0x00], Inr [0xaa, 0x06, 0, 0, 0, 0, 0x2a, 0x2a],
                      Inr [0x90, 0x00], Inr [0xaa, 0x02, 0x01, 0x01]])
      = (Inl Panic,
         \<lparr>card = [Inr [0x90, 0x00], Inr [0xaa, 0x02, 0x01, 0x01]],
          wire = [[0x00, 0xa4, 0x04, 0x00], [0x86, 0x02, 0x10, 0x10]]\<rparr>))"
proof -
  have len: "5 < length [0, 0, 0, 0, 0, 0x2a :: byte]" by simp
  have short: "length [0, 0, 0, 0, 0x2a :: byte] \<le> 5" by simp
  have "BurnSeed (ScardTag_Transceive replay) [0x11, 0x22] (fresh_reader [])
      = (Inl (TransportError 0x80100017), \<lparr>card = [], wire = [[0x00, 0xa4, 0x04, 0x00]]\<rparr>)"
    using burn_seed_wire [THEN conjunct2, THEN conjunct1, rule_format, OF GetInfo_replay_nothing] .
  moreover
  have "BurnSeed (ScardTag_Transceive replay) [0x11, 0x22]
     (fresh_reader [Inr [0x90, 0x00], Inr [0xaa, 0x07, 0, 0, 0, 0, 0, 0x2a, 0x2a],
                    Inr [0x90, 0x00], Inr [0xaa, 0x02, 0x01, 0x01]])
    = Token_Transceive (ScardTag_Transceive replay)
        (0x18 # map (\<lambda>b. b XOR [0, 0, 0, 0, 0, 0x2a] ! 5)
           ([0x11, 0x22] @ [0x06, 0x1e]
              @ [ucast (drop_bit 8 (checksum [0x11, 0x22])), ucast (checksum [0x11, 0x22])]))
        \<lparr>card = [Inr [0x90, 0x00], Inr [0xaa, 0x02, 0x01, 0x01]],
         wire = [[0x00, 0xa4, 0x04, 0x00], [0x86, 0x02, 0x10, 0x10]]\<rparr>"
    using burn_seed_wire [THEN conjunct2, THEN conjunct2, THEN conjunct1, rule_format,
        OF conjI, OF GetInfo_replay len, THEN conjunct1] .
  then have "BurnSeed (ScardTag_Transceive replay) [0x11, 0x22]
       (fresh_reader [Inr [0x90, 0x00], Inr [0xaa, 0x07, 0, 0, 0, 0, 0, 0x2a, 0x2a],
                      Inr [0x90, 0x00], Inr [0xaa, 0x02, 0x01, 0x01]])
      = (Inr [0x01],
         \<lparr>card = [],
          wire = [[0x00, 0xa4, 0x04, 0x00], [0x86, 0x02, 0x10, 0x10],
                  [0x00, 0xa4, 0x04, 0x00],
                  [0x86, 0x08, 0x18, 0x3b, 0x08, 0x2c, 0x34, 0x7b, 0x1d, 0x55]]\<rparr>)"
    unfolding checksum_1122
    by (simp add: Token_Transceive_def ScardTag_Transceive_def transceiveRaw_def
      replay_def probe_def frame_def xor_bytes_def unframe_def checksum_index_def slice_def)
  moreover
  have "BurnSeed (ScardTag_Transceive replay) [0x11, 0x22]
       (fresh_reader [Inr [0x90, 0x00], Inr [0xaa, 0x06, 0, 0, 0, 0, 0x2a, 0x2a],
                      Inr [0x90, 0x00], Inr [0xaa, 0x02, 0x01, 0x01]])
      = (Inl Panic,
         \<lparr>card = [Inr [0x90, 0x00], Inr [0xaa, 0x02, 0x01, 0x01]],
          wire = [[0x00, 0xa4, 0x04, 0x00], [0x86, 0x02, 0x10, 0x10]]\<rparr>)"
    using burn_seed_wire [THEN conjunct2, THEN conjunct2, THEN conjunct2, THEN conjunct1,
        rule_format, OF conjI, OF GetInfo_replay_short short] .
  ultimately show ?thesis
    using GetInfo_replay_nothing GetInfo_replay GetInfo_replay_short len short by simp
qed

text \<open>
  C1, as stated, fails: with the info \<open>00 00 00 00 2A 07\<close> the buffer goes out XOR-ed
  with \<open>0x07\<close>, the byte at offset 5, not with \<open>0x2A\<close>, the byte at offset 4.
\<close>

theorem burn_seed_key_offset_4_counterexample:
  "GetInfo (ScardTag_Transceive replay)
     (fresh_reader [Inr [0x90, 0x00], Inr [0xaa, 0x07, 0, 0, 0, 0, 0x2a, 0x07, 0x2d],
                    Inr [0x90, 0x00], Inr [0xaa, 0x02, 0x01, 0x01]])
   = (Inr [0, 0, 0, 0, 0x2a, 0x07],
      \<lparr>card = [Inr [0x90, 0x00], Inr [0xaa, 0x02, 0x01, 0x01]],
       wire = [[0x00, 0xa4, 0x04, 0x00], [0x86, 0x02, 0x10, 0x10]]\<rparr>)
   \<and> BurnSeed (ScardTag_Transceive replay) [0x11, 0x22]
     (fresh_reader [Inr [0x90, 0x00], Inr [0xaa, 0x07, 0, 0, 0, 0, 0x2a, 0x07, 0x2d],
                    Inr [0x90, 0x00], Inr [0xaa, 0x02, 0x01, 0x01]])
   = (Inr [0x01],
      \<lparr>card = [],
       wire = [[0x00, 0xa4, 0x04, 0x00], [0x86, 0x02, 0x10, 0x10],
               [0x00, 0xa4, 0x04, 0x00],
               [0x86, 0x08, 0x18, 0x16, 0x25, 0x01, 0x19, 0x56, 0x30, 0x55]]\<rparr>)
   \<and> [0x16, 0x25, 0x01, 0x19, 0x56, 0x30]
       = map (\<lambda>b. b XOR 0x07) [0x11, 0x22, 0x06, 0x1e, 0x51, 0x37 :: byte]
   \<and> [0x16, 0x25, 0x01, 0x19, 0x56, 0x30]
       \<noteq> map (\<lambda>b. b XOR 0x2a) [0x11, 0x22, 0x06, 0x1e, 0x51, 0x37 :: byte]"
  by (simp add: BurnSeed_cases checksum_1122 GetInfo_def Token_Transceive_def
      ScardTag_Transceive_def transceiveRaw_def replay_def fresh_reader_def probe_def
      frame_def xor_bytes_def unframe_def checksum_index_def slice_def)

text \<open>
  C1, amended.  The session key is the byte at zero-based offset 5 of the info
  (\<open>data[5]\<close>), used when the info has at least six bytes.  With fewer than six bytes
  \<open>data[5]\<close> is out of range: the call panics after the \<open>GetInfo\<close> round-trip and
  sends nothing more.  On the card transport \<open>BurnSeed\<close> never fails with an error
  \<open>info too short\<close>.
\<close>

theorem burn_seed_key:
  assumes "GetInfo tag w = (Inr info, w')"
  shows "(5 < length info \<longrightarrow>
            BurnSeed tag seed w =
              Token_Transceive tag
                (0x18 # map (\<lambda>b. b XOR info ! 5)
                   (seed @ [0x06, 0x1e]
                      @ [ucast (drop_bit 8 (checksum seed)), ucast (checksum seed)])) w')
       \<and> (length info \<le> 5 \<longrightarrow> BurnSeed tag seed w = (Inl Panic, w'))
       \<and> fst (BurnSeed (ScardTag_Transceive Transmit) seed r)
           \<noteq> Inl (ProtocolError ''info too short'')"
  using assms BurnSeed_on_ScardTag_errors [of Transmit seed r]
  by (simp add: BurnSeed_cases)

theorem burn_seed_key_witness:
  "(5 < length [0, 0, 0, 0, 0, 0x2a :: byte]
    \<and> fst (BurnSeed (ScardTag_Transceive replay) [0x11, 0x22]
         (fresh_reader [Inr [0x90, 0x00], Inr [0xaa, 0x07, 0, 0, 0, 0, 0, 0x2a, 0x2a],
                        Inr [0x90, 0x00], Inr [0xaa, 0x02, 0x01, 0x01]])) = Inr [0x01])
   \<and> (length [0, 0, 0, 0, 0x2a :: byte] \<le> 5
    \<and> BurnSeed (ScardTag_Transceive replay) [0x11, 0x22]
         (fresh_reader [Inr [0x90, 0x00], Inr [0xaa, 0x06, 0, 0, 0, 0, 0x2a, 0x2a],
                        Inr [0x90, 0x00], Inr [0xaa, 0x02, 0x01, 0x01]])
      = (Inl Panic,
         \<lparr>card = [Inr [0x90, 0x00], Inr [0xaa, 0x02, 0x01, 0x01]],
          wire = [[0x00, 0xa4, 0x04, 0x00], [0x86, 0x02, 0x10, 0x10]]\<rparr>))"
proof (intro conjI)
  show "5 < length [0, 0, 0, 0, 0, 0x2a :: byte]" by simp
  show "length [0, 0, 0, 0, 0x2a :: byte] \<le> 5" by simp
  have "BurnSeed (ScardTag_Transceive replay) [0x11, 0x22]
         (fresh_reader [Inr [0x90, 0x00], Inr [0xaa, 0x07, 0, 0, 0, 0, 0, 0x2a, 0x2a],
                        Inr [0x90, 0x00], Inr [0xaa, 0x02, 0x01, 0x01]])
        = Token_Transceive (ScardTag_Transceive replay)
            (0x18 # map (\<lambda>b. b XOR [0, 0, 0, 0, 0, 0x2a] ! 5)
               ([0x11, 0x22] @ [0x06, 0x1e]
                  @ [ucast (drop_bit 8 (checksum [0x11, 0x22])), ucast (checksum [0x11, 0x22])]))
            \<lparr>card = [Inr [0x90, 0x00], Inr [0xaa, 0x02, 0x01, 0x01]],
             wire = [[0x00, 0xa4, 0x04, 0x00], [0x86, 0x02, 0x10, 0x10]]\<rparr>"
    using burn_seed_key [OF GetInfo_replay, THEN conjunct1] by simp
  then show "fst (BurnSeed (ScardTag_Transceive replay) [0x11, 0x22]
         (fresh_reader [Inr [0x90, 0x00], Inr [0xaa, 0x07, 0, 0, 0, 0, 0, 0x2a, 0x2a],
                        Inr [0x90, 0x00], Inr [0xaa, 0x02, 0x01, 0x01]])) = Inr [0x01]"
    unfolding checksum_1122
    by (simp add: Token_Transceive_def ScardTag_Transceive_def transceiveRaw_def
      replay_def probe_def frame_def xor_bytes_def unframe_def checksum_index_def slice_def)
  show "BurnSeed (ScardTag_Transceive replay) [0x11, 0x22]
         (fresh_reader [Inr [0x90, 0x00], Inr [0xaa, 0x06, 0, 0, 0, 0, 0x2a, 0x2a],
                        Inr [0x90, 0x00], Inr [0xaa, 0x02, 0x01, 0x01]])
      = (Inl Panic,
         \<lparr>card = [Inr [0x90, 0x00], Inr [0xaa, 0x02, 0x01, 0x01]],
          wire = [[0x00, 0xa4, 0x04, 0x00], [0x86, 0x02, 0x10, 0x10]]\<rparr>)"
    using burn_seed_key [OF GetInfo_replay_short, THEN conjunct2, THEN conjunct1] by simp
qed

text \<open>
  C2 fails at a payload of 254 bytes: the frame carries the length byte 255, and in the
  reply check \<open>2+resp[1]-1\<close> wraps to 0 in \<open>uint8\<close>, so \<open>resp[2:0]\<close> panics and no
  payload comes back.  (Up to 253 bytes the round trip holds, see
  \<open>roundtrip_upto_253\<close>.)
\<close>

theorem roundtrip_254_panics:
  "length (replicate 254 (0 :: byte)) \<le> 254
   \<and> unframe ((frame (replicate 254 0))[0 := 0xaa]) = Inl Panic
   \<and> unframe ((frame (replicate 254 0))[0 := 0xaa]) \<noteq> Inr (replicate 254 0)"
proof -
  have "unframe ((frame (replicate 254 0))[0 := 0xaa]) = Inl Panic"
    by (rule unframe_255) (simp_all add: frame_Cons)
  then show ?thesis by simp
qed

text \<open>
  C3, as stated, fails on the empty reply: \<open>resp[0]\<close> is out of range and the call
  panics instead of returning the header error.
\<close>

theorem reply_validation_empty_counterexample:
  "unframe [] = Inl Panic
   \<and> unframe [] \<noteq> Inl (ProtocolError ''unknown response header byte'')"
  by (simp add: unframe_empty)

text \<open>
  C3, amended.  A non-empty reply whose first byte is not \<open>0xAA\<close> is rejected with
  \<open>unknown response header byte\<close>.  A reply with header \<open>0xAA\<close>, declared length
  \<open>n = resp[1]\<close> between 1 and 254 and at least \<open>n + 2\<close> bytes is rejected with
  \<open>response checksum incorrect\<close> when the byte at \<open>2+n-1\<close> differs from the XOR
  fold of \<open>resp[2 : 2+n-1]\<close>.  The empty reply yields no payload either.
\<close>

theorem reply_validation:
  "(resp \<noteq> [] \<and> resp ! 0 \<noteq> 0xaa \<longrightarrow>
      unframe resp = Inl (ProtocolError ''unknown response header byte''))
   \<and> (2 \<le> length resp \<and> resp ! 0 = 0xaa
        \<and> 1 \<le> unat (resp ! 1) \<and> unat (resp ! 1) \<le> 254 \<and> unat (resp ! 1) + 1 < length resp
        \<and> resp ! (2 + unat (resp ! 1) - 1)
             \<noteq> foldl (\<lambda>c v. c XOR v) 0 (take (unat (resp ! 1) - 1) (drop 2 resp)) \<longrightarrow>
      unframe resp = Inl (ProtocolError ''response checksum incorrect''))
   \<and> (resp = [] \<longrightarrow> (\<forall>payload. unframe resp \<noteq> Inr payload))"
proof (intro conjI impI)
  assume "resp \<noteq> [] \<and> resp ! 0 \<noteq> 0xaa"
  then show "unframe resp = Inl (ProtocolError ''unknown response header byte'')"
    by (simp add: unframe_bad_header)
next
  assume a: "2 \<le> length resp \<and> resp ! 0 = 0xaa
        \<and> 1 \<le> unat (resp ! 1) \<and> unat (resp ! 1) \<le> 254 \<and> unat (resp ! 1) + 1 < length resp
        \<and> resp ! (2 + unat (resp ! 1) - 1)
             \<noteq> foldl (\<lambda>c v. c XOR v) 0 (take (unat (resp ! 1) - 1) (drop 2 resp))"
  then have "unframe resp =
     (if resp ! (unat (resp ! 1) + 1) \<noteq> xor_bytes (take (unat (resp ! 1) - 1) (drop 2 resp))
      then Inl (ProtocolError ''response checksum incorrect'')
      else Inr (take (unat (resp ! 1) - 1) (drop 2 resp)))"
    by (intro unframe_in_range) simp_all
  with a show "unframe resp = Inl (ProtocolError ''response checksum incorrect'')"
    by (simp add: xor_bytes_foldl)
next
  assume "resp = []"
  then show "\<forall>payload. unframe resp \<noteq> Inr payload"
    by (simp add: unframe_empty)
qed

theorem reply_validation_witness:
  "([0x00, 0x01, 0x00 :: byte] \<noteq> [] \<and> [0x00, 0x01, 0x00 :: byte] ! 0 \<noteq> 0xaa
      \<and> unframe [0x00, 0x01, 0x00] = Inl (ProtocolError ''unknown response header byte''))
   \<and> (2 \<le> length [0xaa, 0x02, 0x41, 0x00 :: byte] \<and> [0xaa, 0x02, 0x41, 0x00 :: byte] ! 0 = 0xaa
      \<and> unat ([0xaa, 0x02, 0x41, 0x00 :: byte] ! 1) = 2
      \<and> [0xaa, 0x02, 0x41, 0x00 :: byte] ! 3 \<noteq> foldl (\<lambda>c v. c XOR v) 0 [0x41]
      \<and> unframe [0xaa, 0x02, 0x41, 0x00] = Inl (ProtocolError ''response checksum incorrect''))
   \<and> unframe [] \<noteq> Inr []"
  using reply_validation [of "[0x00, 0x01, 0x00]", THEN conjunct1]
    reply_validation [of "[0xaa, 0x02, 0x41, 0x00]", THEN conjunct2, THEN conjunct1]
    reply_validation [of "[]", THEN conjunct2, THEN conjunct2]
  by simp

text \<open>
  C4, as stated, fails: on \<open>AA 00 00\<close> the slice \<open>resp[2:1]\<close> is out of range and
  the call panics; no empty payload is returned.
\<close>

theorem zero_length_reply_counterexample:
  "unframe [0xaa, 0x00, 0x00] = Inl Panic \<and> unframe [0xaa, 0x00, 0x00] \<noteq> Inr []"
  by (simp add: unframe_zero_length)

text \<open>
  C4, amended.  Every reply \<open>[0xAA, 0x00, ...]\<close> makes the reply check panic, so no
  payload is returned.  The reply that carries an empty payload has the declared length
  1, \<open>[0xAA, 0x01, c, ...]\<close>: it is checked without any access out of range, and gives
  the empty payload when \<open>c = 0\<close> and the checksum error otherwise.
\<close>

theorem zero_length_reply:
  "(2 \<le> length resp \<and> resp ! 0 = 0xaa \<and> resp ! 1 = 0 \<longrightarrow> unframe resp = Inl Panic)
   \<and> (3 \<le> length resp \<and> resp ! 0 = 0xaa \<and> resp ! 1 = 1 \<longrightarrow>
        unframe resp =
          (if resp ! 2 = 0 then Inr [] else Inl (ProtocolError ''response checksum incorrect'')))"
proof (intro conjI impI)
  assume "2 \<le> length resp \<and> resp ! 0 = 0xaa \<and> resp ! 1 = 0"
  then show "unframe resp = Inl Panic"
    by (simp add: unframe_zero_length)
next
  assume a: "3 \<le> length resp \<and> resp ! 0 = 0xaa \<and> resp ! 1 = 1"
  then have "unframe resp =
     (if resp ! (unat (resp ! 1) + 1) \<noteq> xor_bytes (take (unat (resp ! 1) - 1) (drop 2 resp))
      then Inl (ProtocolError ''response checksum incorrect'')
      else Inr (take (unat (resp ! 1) - 1) (drop 2 resp)))"
    by (intro unframe_in_range) simp_all
  with a show "unframe resp =
          (if resp ! 2 = 0 then Inr [] else Inl (ProtocolError ''response checksum incorrect''))"
    by (simp add: xor_bytes_def numeral_2_eq_2)
qed

theorem zero_length_reply_witness:
  "(2 \<le> length [0xaa, 0x00, 0x00 :: byte] \<and> [0xaa, 0x00, 0x00 :: byte] ! 0 = 0xaa
      \<and> [0xaa, 0x00, 0x00 :: byte] ! 1 = 0 \<and> unframe [0xaa, 0x00, 0x00] = Inl Panic)
   \<and> (3 \<le> length [0xaa, 0x01, 0x00 :: byte] \<and> [0xaa, 0x01, 0x00 :: byte] ! 0 = 0xaa
      \<and> [0xaa, 0x01, 0x00 :: byte] ! 1 = 1 \<and> unframe [0xaa, 0x01, 0x00] = Inr [])"
  using zero_length_reply [of "[0xaa, 0x00, 0x00]", THEN conjunct1]
    zero_length_reply [of "[0xaa, 0x01, 0x00]", THEN conjunct2]
  by simp

text \<open>
  C9, as stated, fails: a payload of 255 bytes is framed and transmitted with the length
  byte \<open>0x00\<close>; nothing is rejected.
\<close>

theorem oversized_payload_counterexample:
  "254 < length (replicate 255 (0 :: byte))
   \<and> Token_Transceive (ScardTag_Transceive replay) (replicate 255 0)
       (fresh_reader [Inr [0x90, 0x00], Inr [0xaa, 0x02, 0x01, 0x01]])
     = (Inr [0x01],
        \<lparr>card = [],
         wire = [[0x00, 0xa4, 0x04, 0x00], 0x86 # 0x00 # replicate 255 0 @ [0x00]]\<rparr>)"
  by (simp add: Token_Transceive_def ScardTag_Transceive_def transceiveRaw_def
      replay_def fresh_reader_def probe_def frame_def xor_bytes_def xor_loop_zeros
      unframe_def checksum_index_def slice_def)

text \<open>
  C9, amended.  For a payload of more than 254 bytes \<open>Token.Transceive\<close> raises no
  error of its own: it hands its tag the frame whose length byte is
  \<open>(len(payload) + 1) mod 256\<close>, which is smaller than \<open>len(payload) + 1\<close>.
\<close>

theorem oversized_payload_wraps:
  assumes "254 < length payload"
  shows "Token_Transceive tag payload w =
           (case tag (0x86 # word_of_nat ((length payload + 1) mod 256) # payload
                        @ [foldl (\<lambda>c v. c XOR v) 0 payload]) w of
              (Inl err, w') \<Rightarrow> (Inl err, w')
            | (Inr resp, w') \<Rightarrow> (unframe resp, w'))
         \<and> unat (word_of_nat ((length payload + 1) mod 256) :: byte)
             = (length payload + 1) mod 256
         \<and> (length payload + 1) mod 256 < length payload + 1"
proof (intro conjI)
  show "Token_Transceive tag payload w =
           (case tag (0x86 # word_of_nat ((length payload + 1) mod 256) # payload
                        @ [foldl (\<lambda>c v. c XOR v) 0 payload]) w of
              (Inl err, w') \<Rightarrow> (Inl err, w')
            | (Inr resp, w') \<Rightarrow> (unframe resp, w'))"
    unfolding Token_Transceive_def frame_Cons xor_bytes_foldl byte_of_nat_mod ..
  show "unat (word_of_nat ((length payload + 1) mod 256) :: byte) = (length payload + 1) mod 256"
    unfolding byte_of_nat_mod by (rule length_byte_mod)
  have "(length payload + 1) mod 256 < 256"
    by simp
  with assms show "(length payload + 1) mod 256 < length payload + 1"
    by linarith
qed

theorem oversized_payload_wraps_witness:
  "254 < length (replicate 255 (0 :: byte))
   \<and> unat (word_of_nat ((length (replicate 255 (0 :: byte)) + 1) mod 256) :: byte) = 0
   \<and> (0 :: nat) < length (replicate 255 (0 :: byte)) + 1"
proof -
  have len: "254 < length (replicate 255 (0 :: byte))" by simp
  show ?thesis
    using oversized_payload_wraps [OF len, THEN conjunct2] by simp
qed

text \<open>
  C10.  \<open>BurnSeed\<close> does not write to the caller's seed.  Run over the memory model
  from any memory in which the seed's slice header is valid, with any tag and any growth
  policy of \<open>append\<close>: the seed slice holds the same bytes afterwards as before, and so
  does every array that was allocated before the call, since the key loop and every
  \<open>append\<close> write only to arrays allocated during the call.  The bytes and the tag state
  that come back are those of \<open>BurnSeed\<close> on the seed's contents.
\<close>

theorem seed_not_mutated:
  assumes "valid m seed" and "BurnSeed_mem growslice tag seed m w = (res, m', w')"
  shows "load m' seed = load m seed
       \<and> (\<forall>a<lim m. arrays m' a = arrays m a)
       \<and> lim m \<le> lim m'
       \<and> (map_sum id (load m') res, w') = BurnSeed tag (load m seed) w"
proof -
  note p = BurnSeed_mem_props [OF assms]
  have "load m' seed = load m seed"
    using assms(1) p(1) valid_allocated [OF assms(1)] by (rule valid_unchanged(2))
  with p show ?thesis
    by (simp add: unchanged_below_def)
qed

theorem seed_not_mutated_witness:
  "valid \<lparr>arrays = (\<lambda>a. [])(0 := [0x11, 0x22, 0x33]), lim = 1\<rparr>
         \<lparr>array = 0, offset = 0, len = 2, cap = 3\<rparr>
   \<and> load (fst (snd (BurnSeed_mem (\<lambda>c n. 2 * n) (ScardTag_Transceive replay)
         \<lparr>array = 0, offset = 0, len = 2, cap = 3\<rparr>
         \<lparr>arrays = (\<lambda>a. [])(0 := [0x11, 0x22, 0x33]), lim = 1\<rparr>
         (fresh_reader [Inr [0x90, 0x00], Inr [0xaa, 0x07, 0, 0, 0, 0, 0, 0x2a, 0x2a],
                        Inr [0x90, 0x00], Inr [0xaa, 0x02, 0x01, 0x01]]))))
       \<lparr>array = 0, offset = 0, len = 2, cap = 3\<rparr> = [0x11, 0x22]
   \<and> arrays (fst (snd (BurnSeed_mem (\<lambda>c n. 2 * n) (ScardTag_Transceive replay)
         \<lparr>array = 0, offset = 0, len = 2, cap = 3\<rparr>
         \<lparr>arrays = (\<lambda>a. [])(0 := [0x11, 0x22, 0x33]), lim = 1\<rparr>
         (fresh_reader [Inr [0x90, 0x00], Inr [0xaa, 0x07, 0, 0, 0, 0, 0, 0x2a, 0x2a],
                        Inr [0x90, 0x00], Inr [0xaa, 0x02, 0x01, 0x01]])))) 0
       = [0x11, 0x22, 0x33]
   \<and> map_sum id
        (load (fst (snd (BurnSeed_mem (\<lambda>c n. 2 * n) (ScardTag_Transceive replay)
         \<lparr>array = 0, offset = 0, len = 2, cap = 3\<rparr>
         \<lparr>arrays = (\<lambda>a. [])(0 := [0x11, 0x22, 0x33]), lim = 1\<rparr>
         (fresh_reader [Inr [0x90, 0x00], Inr [0xaa, 0x07, 0, 0, 0, 0, 0, 0x2a, 0x2a],
                        Inr [0x90, 0x00], Inr [0xaa, 0x02, 0x01, 0x01]])))))
        (fst (BurnSeed_mem (\<lambda>c n. 2 * n) (ScardTag_Transceive replay)
         \<lparr>array = 0, offset = 0, len = 2, cap = 3\<rparr>
         \<lparr>arrays = (\<lambda>a. [])(0 := [0x11, 0x22, 0x33]), lim = 1\<rparr>
         (fresh_reader [Inr [0x90, 0x00], Inr [0xaa, 0x07, 0, 0, 0, 0, 0, 0x2a, 0x2a],
                        Inr [0x90, 0x00], Inr [0xaa, 0x02, 0x01, 0x01]])))
       = Inr [0x01]"
proof -
  let ?m = "\<lparr>arrays = (\<lambda>a. [])(0 := [0x11, 0x22, 0x33 :: byte]), lim = 1\<rparr>"
  let ?seed = "\<lparr>array = 0, offset = 0, len = 2, cap = 3\<rparr>"
  let ?B = "BurnSeed_mem (\<lambda>c n. 2 * n) (ScardTag_Transceive replay) ?seed ?m
         (fresh_reader [Inr [0x90, 0x00], Inr [0xaa, 0x07, 0, 0, 0, 0, 0, 0x2a, 0x2a],
                        Inr [0x90, 0x00], Inr [0xaa, 0x02, 0x01, 0x01]])"
  have v: "valid ?m ?seed"
    by (simp add: valid_def)
  have l: "load ?m ?seed = [0x11, 0x22]"
    by (simp add: load_def)
  have e: "?B = (fst ?B, fst (snd ?B), snd (snd ?B))"
    by simp
  note t = seed_not_mutated [OF v e, unfolded l BurnSeed_replay]
  from t have "load (fst (snd ?B)) ?seed = [0x11, 0x22]"
    by (rule conjunct1)
  moreover from t have "arrays (fst (snd ?B)) 0 = [0x11, 0x22, 0x33]"
    by simp
  moreover from t have "map_sum id (load (fst (snd ?B))) (fst ?B) = Inr [0x01]"
    by simp
  ultimately show ?thesis
    using v by simp
qed

end
